theory Spec2Isabelle
  imports Complex_Main
begin

section \<open>Text as sequences of code points\<close>

text \<open>
  The program works on Python \<open>str\<close> values: sequences of Unicode code points of
  unbounded length. A character is its code point, a string a list of them.
\<close>

type_synonym uchar = nat
type_synonym ustring = "uchar list"

definition NL :: uchar where "NL = 10"
definition LBRACK :: uchar where "LBRACK = 91"
definition RBRACK :: uchar where "RBRACK = 93"
definition FWCOLON :: uchar where "FWCOLON = 65306"
definition IDEO_STOP :: uchar where "IDEO_STOP = 12290"
definition FW_EXCL :: uchar where "FW_EXCL = 65281"
definition FW_QUEST :: uchar where "FW_QUEST = 65311"
definition FW_SEMI :: uchar where "FW_SEMI = 65307"
definition ELLIPSIS :: uchar where "ELLIPSIS = 8230"
definition FW_COMMA :: uchar where "FW_COMMA = 65292"
definition IDEO_COMMA :: uchar where "IDEO_COMMA = 12289"

text \<open>The code points for which \<open>str.isspace()\<close> holds; \<open>str.strip()\<close> and the
  regular expression class \<open>\s\<close> both use this set.\<close>

definition isspace :: "uchar \<Rightarrow> bool" where
  "isspace c \<longleftrightarrow>
     (9 \<le> c \<and> c \<le> 13) \<or> (28 \<le> c \<and> c \<le> 32) \<or> c = 133 \<or> c = 160 \<or> c = 5760 \<or>
     (8192 \<le> c \<and> c \<le> 8202) \<or> c = 8232 \<or> c = 8233 \<or> c = 8239 \<or> c = 8287 \<or> c = 12288"

definition lstrip :: "ustring \<Rightarrow> ustring" where
  "lstrip s = dropWhile isspace s"

definition rstrip :: "ustring \<Rightarrow> ustring" where
  "rstrip s = rev (dropWhile isspace (rev s))"

definition strip :: "ustring \<Rightarrow> ustring" where
  "strip s = rstrip (lstrip s)"

text \<open>Python's slice \<open>xs[lo:hi]\<close> with step 1: a negative bound counts from the end,
  every bound is clamped to the sequence, and an absent bound is the respective end.\<close>

definition slice_index :: "nat \<Rightarrow> int \<Rightarrow> nat" where
  "slice_index n i = (if i < 0 then nat (max (i + int n) 0) else min (nat i) n)"

definition pyslice :: "int option \<Rightarrow> int option \<Rightarrow> 'a list \<Rightarrow> 'a list" where
  "pyslice lo hi xs =
     (let n = length xs;
          l = (case lo of None \<Rightarrow> 0 | Some i \<Rightarrow> slice_index n i);
          h = (case hi of None \<Rightarrow> n | Some i \<Rightarrow> slice_index n i)
      in take (h - l) (drop l xs))"

text \<open>The operator \<open>a in b\<close> on strings: \<open>a\<close> occurs in \<open>b\<close> as a contiguous run.\<close>

fun starts_with :: "'a list \<Rightarrow> 'a list \<Rightarrow> bool" where
  "starts_with [] ys = True"
| "starts_with (x # xs) [] = False"
| "starts_with (x # xs) (y # ys) = (x = y \<and> starts_with xs ys)"

fun str_in :: "'a list \<Rightarrow> 'a list \<Rightarrow> bool" where
  "str_in xs [] = (xs = [])"
| "str_in xs (y # ys) = (starts_with xs (y # ys) \<or> str_in xs ys)"

section \<open>Repetition check\<close>

text \<open>\<open>detect_repetition(text, window_size)\<close>; \<open>window_size\<close> is a Python integer,
  100 where the caller leaves it out.\<close>

definition detect_repetition :: "ustring \<Rightarrow> int \<Rightarrow> bool" where
  "detect_repetition text window_size =
     (if int (length text) < window_size * 2 then False
      else
        let tail = pyslice (Some (- window_size)) None text;
            search_range =
              (if length text > 500 then pyslice (Some (- 500)) (Some (- window_size)) text
               else pyslice None (Some (- window_size)) text)
        in str_in tail search_range)"

definition default_window_size :: int where
  "default_window_size = 100"

section \<open>Chunker: \<open>split_text\<close>\<close>

text \<open>\<open>text.split('\n')\<close>: the lines of a text; a text of \<open>n\<close> newlines has \<open>n + 1\<close>
  lines, so the empty text has one empty line.\<close>

fun split_nl :: "ustring \<Rightarrow> ustring list" where
  "split_nl [] = [[]]"
| "split_nl (c # cs) =
     (if c = NL then [] # split_nl cs
      else (let r = split_nl cs in (c # hd r) # tl r))"

text \<open>\<open>re.match(r'\[([^\]]+)\]\<colon>', line)\<close> with the full-width colon: the line starts with
  an opening bracket, a non-empty label free of closing brackets, a closing bracket and the
  full-width colon. The result is the label (group 1) and the line after the match.\<close>

definition speaker_match :: "ustring \<Rightarrow> (ustring \<times> ustring) option" where
  "speaker_match line =
     (case line of
        [] \<Rightarrow> None
      | c # cs \<Rightarrow>
          if c = LBRACK then
            (let lbl = takeWhile (\<lambda>x. x \<noteq> RBRACK) cs;
                 rest = dropWhile (\<lambda>x. x \<noteq> RBRACK) cs
             in (case rest of
                   r # f # rest' \<Rightarrow> if lbl \<noteq> [] \<and> f = FWCOLON then Some (lbl, rest') else None
                 | _ \<Rightarrow> None))
          else None)"

text \<open>The formatted block \<open>f"[{current_speaker}]\<colon>{content}"\<close>.\<close>

definition fmt_block :: "ustring \<Rightarrow> ustring \<Rightarrow> ustring" where
  "fmt_block speaker content = [LBRACK] @ speaker @ [RBRACK, FWCOLON] @ content"

text \<open>Saving the block under construction: \<open>if current_speaker and current_content\<close>,
  then append the block unless its stripped content is empty.\<close>

definition flush_block :: "ustring option \<Rightarrow> ustring list \<Rightarrow> ustring list \<Rightarrow> ustring list" where
  "flush_block current_speaker current_content speaker_blocks =
     (case current_speaker of
        None \<Rightarrow> speaker_blocks
      | Some sp \<Rightarrow>
          if sp \<noteq> [] \<and> current_content \<noteq> [] then
            (let content = strip (concat current_content)
             in if content \<noteq> [] then speaker_blocks @ [fmt_block sp content]
                else speaker_blocks)
          else speaker_blocks)"

definition truthy_speaker :: "ustring option \<Rightarrow> bool" where
  "truthy_speaker sp = (case sp of None \<Rightarrow> False | Some l \<Rightarrow> l \<noteq> [])"

text \<open>The loop over the lines, on the state \<open>(current_speaker, current_content,
  speaker_blocks)\<close>.\<close>

fun scan_lines ::
  "ustring list \<Rightarrow> ustring option \<Rightarrow> ustring list \<Rightarrow> ustring list \<Rightarrow>
   ustring option \<times> ustring list \<times> ustring list" where
  "scan_lines [] sp content blocks = (sp, content, blocks)"
| "scan_lines (line # ls) sp content blocks =
     (case speaker_match line of
        Some (lbl, rest) \<Rightarrow> scan_lines ls (Some lbl) [rest] (flush_block sp content blocks)
      | None \<Rightarrow>
          if truthy_speaker sp then scan_lines ls sp (content @ [line]) blocks
          else scan_lines ls sp content blocks)"

definition speaker_blocks_of :: "ustring \<Rightarrow> ustring list" where
  "speaker_blocks_of text =
     (case scan_lines (split_nl text) None [] [] of
        (sp, content, blocks) \<Rightarrow> flush_block sp content blocks)"

text \<open>The sentence delimiters of the fallback, the class \<open>[\<dots>\n]\<close> of
  \<open>sentence_endings\<close>: ideographic full stop, full-width exclamation mark, question mark
  and semicolon, horizontal ellipsis, newline.\<close>

definition is_ending :: "uchar \<Rightarrow> bool" where
  "is_ending c \<longleftrightarrow>
     c = IDEO_STOP \<or> c = FW_EXCL \<or> c = FW_QUEST \<or> c = FW_SEMI \<or> c = ELLIPSIS \<or> c = NL"

text \<open>\<open>re.split('([\<dots>]+)', text)\<close>: the text between the maximal runs of delimiters
  at the even positions, the runs themselves (the capturing group) at the odd ones.\<close>

function re_split :: "ustring \<Rightarrow> ustring list" where
  "re_split text =
     (let pre = takeWhile (\<lambda>c. \<not> is_ending c) text;
          rest = dropWhile (\<lambda>c. \<not> is_ending c) text
      in if rest = [] then [pre]
         else pre # takeWhile is_ending rest # re_split (dropWhile is_ending rest))"
  by pat_completeness auto
termination
proof (relation "measure length")
  show "wf (measure length)" by simp
next
  fix t :: ustring and pre rest
  assume r: "rest = dropWhile (\<lambda>c. \<not> is_ending c) t" and ne: "rest \<noteq> []"
  from ne obtain c cs where rc: "rest = c # cs" by (cases rest) auto
  from r rc have "dropWhile (\<lambda>c. \<not> is_ending c) t = c # cs" by simp
  then have "is_ending c" by (simp add: dropWhile_eq_Cons_conv)
  then have "length (dropWhile is_ending rest) < length rest"
    using rc length_dropWhile_le [of is_ending cs] by simp
  moreover have "length rest \<le> length t"
    using r length_dropWhile_le by simp
  ultimately show "(dropWhile is_ending rest, t) \<in> measure length" by simp
qed

declare re_split.simps [simp del]

text \<open>The loop \<open>for i in range(0, len(sentences), 2)\<close> reads a sentence together with
  the delimiter run after it, when there is one.\<close>

fun sentence_units :: "ustring list \<Rightarrow> ustring list" where
  "sentence_units (s # d # rest) = (s @ d) # sentence_units rest"
| "sentence_units [s] = [s]"
| "sentence_units [] = []"

text \<open>Closing a chunk: \<open>if current_chunk.strip(): chunks.append(current_chunk.strip())\<close>.\<close>

definition close_chunk :: "ustring \<Rightarrow> ustring list \<Rightarrow> ustring list" where
  "close_chunk current_chunk chunks =
     (if strip current_chunk \<noteq> [] then chunks @ [strip current_chunk] else chunks)"

text \<open>Greedy packing of sentences, on the state \<open>(current_chunk, chunks)\<close>;
  \<open>max_chars\<close> is a Python integer.\<close>

fun pack_sentences :: "int \<Rightarrow> ustring list \<Rightarrow> ustring \<Rightarrow> ustring list \<Rightarrow> ustring \<times> ustring list" where
  "pack_sentences max_chars [] current_chunk chunks = (current_chunk, chunks)"
| "pack_sentences max_chars (sentence # ss) current_chunk chunks =
     (if int (length current_chunk) + int (length sentence) \<le> max_chars
      then pack_sentences max_chars ss (current_chunk @ sentence) chunks
      else pack_sentences max_chars ss sentence (close_chunk current_chunk chunks))"

text \<open>Greedy packing of speaker blocks; a block joins a non-empty chunk after the
  paragraph separator \<open>"\n\n"\<close>.\<close>

fun pack_blocks :: "int \<Rightarrow> ustring list \<Rightarrow> ustring \<Rightarrow> ustring list \<Rightarrow> ustring \<times> ustring list" where
  "pack_blocks max_chars [] current_chunk chunks = (current_chunk, chunks)"
| "pack_blocks max_chars (block # bs) current_chunk chunks =
     (if int (length current_chunk) + int (length block) \<le> max_chars
      then pack_blocks max_chars bs
             (current_chunk @ (if current_chunk \<noteq> [] then [NL, NL] else []) @ block) chunks
      else pack_blocks max_chars bs block (close_chunk current_chunk chunks))"

definition split_sentences :: "ustring \<Rightarrow> int \<Rightarrow> ustring list" where
  "split_sentences text max_chars =
     (case pack_sentences max_chars (sentence_units (re_split text)) [] [] of
        (current_chunk, chunks) \<Rightarrow>
          (let chunks' = close_chunk current_chunk chunks
           in if chunks' \<noteq> [] then chunks' else [text]))"

definition split_blocks :: "ustring list \<Rightarrow> ustring \<Rightarrow> int \<Rightarrow> ustring list" where
  "split_blocks speaker_blocks text max_chars =
     (case pack_blocks max_chars speaker_blocks [] [] of
        (current_chunk, chunks) \<Rightarrow>
          (let chunks' = close_chunk current_chunk chunks
           in if chunks' \<noteq> [] then chunks' else [text]))"

definition split_text :: "ustring \<Rightarrow> int \<Rightarrow> ustring list" where
  "split_text text max_chars =
     (let speaker_blocks = speaker_blocks_of text
      in if speaker_blocks = [] then split_sentences text max_chars
         else split_blocks speaker_blocks text max_chars)"

section \<open>Similarity ratio\<close>

text \<open>
  The deduplicator compares two strings with \<open>SequenceMatcher(None, a, b).ratio()\<close> of
  Python's standard library (\<open>difflib\<close>), which is not part of the repository. The model
  follows that library: \<open>b2j\<close> maps an element to its positions in \<open>b\<close>, leaving
  out, when \<open>b\<close> has 200 elements or more, the elements that occur more than
  \<open>len(b) // 100 + 1\<close> times; there is no junk.
\<close>

definition b2j :: "ustring \<Rightarrow> uchar \<Rightarrow> nat list" where
  "b2j b x =
     (if length b \<ge> 200 \<and> count_list b x > length b div 100 + 1 then []
      else filter (\<lambda>j. b ! j = x) [0..<length b])"

text \<open>\<open>find_longest_match\<close>: the inner loop over the positions \<open>j\<close> of
  \<open>a[i]\<close> in \<open>b\<close>, the loop over \<open>i\<close>, and the two loops that extend the
  match to the left and to the right. The dictionaries \<open>j2len\<close> and \<open>newj2len\<close>
  are functions with the default 0.\<close>

fun flm_row ::
  "nat list \<Rightarrow> nat \<Rightarrow> nat \<Rightarrow> nat \<Rightarrow> (nat \<Rightarrow> nat) \<Rightarrow> (nat \<Rightarrow> nat) \<Rightarrow> nat \<times> nat \<times> nat \<Rightarrow>
   (nat \<Rightarrow> nat) \<times> (nat \<times> nat \<times> nat)" where
  "flm_row [] i blo bhi j2len newj2len best = (newj2len, best)"
| "flm_row (j # js) i blo bhi j2len newj2len best =
     (if j < blo then flm_row js i blo bhi j2len newj2len best
      else if j \<ge> bhi then (newj2len, best)
      else
        (let k = (if j = 0 then 0 else j2len (j - 1)) + 1
         in flm_row js i blo bhi j2len (newj2len(j := k))
              (if k > snd (snd best) then (i + 1 - k, j + 1 - k, k) else best)))"

fun flm_rows ::
  "ustring \<Rightarrow> ustring \<Rightarrow> nat list \<Rightarrow> nat \<Rightarrow> nat \<Rightarrow> (nat \<Rightarrow> nat) \<Rightarrow> nat \<times> nat \<times> nat \<Rightarrow>
   nat \<times> nat \<times> nat" where
  "flm_rows a b [] blo bhi j2len best = best"
| "flm_rows a b (i # is) blo bhi j2len best =
     (case flm_row (b2j b (a ! i)) i blo bhi j2len (\<lambda>_. 0) best of
        (newj2len, best') \<Rightarrow> flm_rows a b is blo bhi newj2len best')"

function extend_left :: "ustring \<Rightarrow> ustring \<Rightarrow> nat \<Rightarrow> nat \<Rightarrow> nat \<times> nat \<times> nat \<Rightarrow> nat \<times> nat \<times> nat" where
  "extend_left a b alo blo (besti, bestj, bestsize) =
     (if besti > alo \<and> bestj > blo \<and> a ! (besti - 1) = b ! (bestj - 1)
      then extend_left a b alo blo (besti - 1, bestj - 1, bestsize + 1)
      else (besti, bestj, bestsize))"
  by pat_completeness auto
termination
  by (relation "measure (\<lambda>(a, b, alo, blo, besti, bestj, bestsize). besti)") auto

function extend_right :: "ustring \<Rightarrow> ustring \<Rightarrow> nat \<Rightarrow> nat \<Rightarrow> nat \<times> nat \<times> nat \<Rightarrow> nat \<times> nat \<times> nat" where
  "extend_right a b ahi bhi (besti, bestj, bestsize) =
     (if besti + bestsize < ahi \<and> bestj + bestsize < bhi \<and>
         a ! (besti + bestsize) = b ! (bestj + bestsize)
      then extend_right a b ahi bhi (besti, bestj, bestsize + 1)
      else (besti, bestj, bestsize))"
  by pat_completeness auto
termination
  by (relation "measure (\<lambda>(a, b, ahi, bhi, besti, bestj, bestsize). ahi - (besti + bestsize))") auto

declare extend_left.simps [simp del] extend_right.simps [simp del]

definition find_longest_match ::
  "ustring \<Rightarrow> ustring \<Rightarrow> nat \<Rightarrow> nat \<Rightarrow> nat \<Rightarrow> nat \<Rightarrow> nat \<times> nat \<times> nat" where
  "find_longest_match a b alo ahi blo bhi =
     extend_right a b ahi bhi
       (extend_left a b alo blo
          (flm_rows a b [alo..<ahi] blo bhi (\<lambda>_. 0) (alo, blo, 0)))"


text \<open>A match lies inside the window it was searched in.\<close>

definition in_window :: "nat \<Rightarrow> nat \<Rightarrow> nat \<Rightarrow> nat \<Rightarrow> nat \<times> nat \<times> nat \<Rightarrow> bool" where
  "in_window alo ahi blo bhi m =
     (case m of (i, j, k) \<Rightarrow> alo \<le> i \<and> i + k \<le> ahi \<and> blo \<le> j \<and> j + k \<le> bhi)"

definition row_ok :: "nat \<Rightarrow> nat \<Rightarrow> nat \<Rightarrow> (nat \<Rightarrow> nat) \<Rightarrow> bool" where
  "row_ok alo blo i f = (\<forall>j. f j \<le> i - alo \<and> f j \<le> j + 1 - blo)"

definition best_ok :: "nat \<Rightarrow> nat \<Rightarrow> nat \<Rightarrow> nat \<Rightarrow> nat \<times> nat \<times> nat \<Rightarrow> bool" where
  "best_ok alo ahi blo bhi m = (m = (alo, blo, 0) \<or> (0 < snd (snd m) \<and> in_window alo ahi blo bhi m))"

lemma flm_row_ok:
  "flm_row js i blo bhi f g best = (g', best') \<Longrightarrow>
   alo \<le> i \<Longrightarrow> i < ahi \<Longrightarrow> row_ok alo blo i f \<Longrightarrow> row_ok alo blo (Suc i) g \<Longrightarrow>
   best_ok alo ahi blo bhi best \<Longrightarrow>
   row_ok alo blo (Suc i) g' \<and> best_ok alo ahi blo bhi best'"
proof (induction js i blo bhi f g best rule: flm_row.induct)
  case (1 i blo bhi f g best)
  then show ?case by simp
next
  case (2 j js i blo bhi f g best)
  show ?case
  proof (cases "j < blo")
    case True
    then show ?thesis using 2 by simp
  next
    case nlo: False
    show ?thesis
    proof (cases "j \<ge> bhi")
      case True
      then show ?thesis using 2 nlo by simp
    next
      case False
      define k where "k = (if j = 0 then 0 else f (j - 1)) + 1"
      have kb: "k \<le> Suc i - alo \<and> k \<le> j + 1 - blo \<and> 0 < k"
        using "2.prems"(2,4) nlo unfolding k_def row_ok_def
        by (auto simp: le_diff_conv Suc_diff_le dest: spec [of _ "j - 1"])
      have g: "row_ok alo blo (Suc i) (g(j := k))"
        using "2.prems"(5) kb unfolding row_ok_def by auto
      have b: "best_ok alo ahi blo bhi (if k > snd (snd best) then (i + 1 - k, j + 1 - k, k) else best)"
        using "2.prems"(2,3,6) kb nlo False unfolding best_ok_def in_window_def by auto
      have "flm_row (j # js) i blo bhi f g best = flm_row js i blo bhi f (g(j := k))
                 (if k > snd (snd best) then (i + 1 - k, j + 1 - k, k) else best)"
        using nlo False unfolding k_def by (simp only: flm_row.simps Let_def if_False)
      then have r: "flm_row js i blo bhi f (g(j := k))
                 (if k > snd (snd best) then (i + 1 - k, j + 1 - k, k) else best) = (g', best')"
        using "2.prems"(1) by simp
      show ?thesis
        using "2.IH"(2) [OF nlo False k_def r "2.prems"(2,3,4) g b] .
    qed
  qed
qed


lemma flm_rows_ok:
  "set is \<subseteq> {alo..<ahi} \<Longrightarrow> sorted_wrt (<) is \<Longrightarrow>
   (\<forall>i\<in>set is. row_ok alo blo i f) \<Longrightarrow>
   best_ok alo ahi blo bhi best \<Longrightarrow>
   best_ok alo ahi blo bhi (flm_rows a b is blo bhi f best)"
proof (induction "is" arbitrary: f best)
  case Nil
  then show ?case by simp
next
  case (Cons i "is")
  obtain g' best' where r: "flm_row (b2j b (a ! i)) i blo bhi f (\<lambda>_. 0) best = (g', best')"
    by (cases "flm_row (b2j b (a ! i)) i blo bhi f (\<lambda>_. 0) best")
  have i: "alo \<le> i" "i < ahi" using Cons.prems(1) by auto
  have z: "row_ok alo blo (Suc i) (\<lambda>_. 0)" by (simp add: row_ok_def)
  have f: "row_ok alo blo i f" using Cons.prems(3) by simp
  have ok: "row_ok alo blo (Suc i) g' \<and> best_ok alo ahi blo bhi best'"
    using flm_row_ok [OF r i f z Cons.prems(4)] .
  have "\<forall>i'\<in>set is. row_ok alo blo i' g'"
  proof
    fix i' assume "i' \<in> set is"
    then have "Suc i \<le> i'" using Cons.prems(2) by auto
    then show "row_ok alo blo i' g'" using ok unfolding row_ok_def
      by (meson diff_le_mono order_trans)
  qed
  then have "best_ok alo ahi blo bhi (flm_rows a b is blo bhi g' best')"
    using Cons.IH [of g' best'] Cons.prems(1,2) ok by simp
  then show ?case using r by simp
qed

lemma extend_left_ok:
  "best_ok alo ahi blo bhi m \<Longrightarrow> best_ok alo ahi blo bhi (extend_left a b alo blo m)"
proof (induction a b alo blo m rule: extend_left.induct)
  case (1 a b alo blo besti bestj bestsize)
  show ?case
  proof (cases "besti > alo \<and> bestj > blo \<and> a ! (besti - 1) = b ! (bestj - 1)")
    case True
    then have "best_ok alo ahi blo bhi (besti - 1, bestj - 1, bestsize + 1)"
      using 1(2) unfolding best_ok_def in_window_def by auto
    then have ih: "best_ok alo ahi blo bhi (extend_left a b alo blo (besti - 1, bestj - 1, bestsize + 1))"
      by (rule 1(1) [OF True])
    show ?thesis using True ih by (subst extend_left.simps) simp
  next
    case False
    have "extend_left a b alo blo (besti, bestj, bestsize) = (besti, bestj, bestsize)"
      by (subst extend_left.simps) (simp only: False if_False)
    then show ?thesis using 1(2) by simp
  qed
qed

lemma extend_right_ok:
  "best_ok alo ahi blo bhi m \<Longrightarrow> best_ok alo ahi blo bhi (extend_right a b ahi bhi m)"
proof (induction a b ahi bhi m rule: extend_right.induct)
  case (1 a b ahi bhi besti bestj bestsize)
  show ?case
  proof (cases "besti + bestsize < ahi \<and> bestj + bestsize < bhi \<and>
         a ! (besti + bestsize) = b ! (bestj + bestsize)")
    case True
    then have "best_ok alo ahi blo bhi (besti, bestj, bestsize + 1)"
      using 1(2) unfolding best_ok_def in_window_def by auto
    then have ih: "best_ok alo ahi blo bhi (extend_right a b ahi bhi (besti, bestj, bestsize + 1))"
      by (rule 1(1) [OF True])
    show ?thesis using True ih by (subst extend_right.simps) simp
  next
    case False
    have "extend_right a b ahi bhi (besti, bestj, bestsize) = (besti, bestj, bestsize)"
      by (subst extend_right.simps) (simp only: False if_False)
    then show ?thesis using 1(2) by simp
  qed
qed

lemma find_longest_match_window:
  assumes "find_longest_match a b alo ahi blo bhi = (i, j, k)" "k \<noteq> 0"
  shows "alo \<le> i \<and> i + k \<le> ahi \<and> blo \<le> j \<and> j + k \<le> bhi"
proof -
  have "best_ok alo ahi blo bhi (flm_rows a b [alo..<ahi] blo bhi (\<lambda>_. 0) (alo, blo, 0))"
    by (rule flm_rows_ok) (auto simp: row_ok_def best_ok_def)
  then have "best_ok alo ahi blo bhi (find_longest_match a b alo ahi blo bhi)"
    unfolding find_longest_match_def by (intro extend_right_ok extend_left_ok)
  then show ?thesis using assms by (auto simp: best_ok_def in_window_def)
qed

text \<open>\<open>get_matching_blocks\<close>, summed: the number of matched elements.\<close>

function matched :: "ustring \<Rightarrow> ustring \<Rightarrow> nat \<Rightarrow> nat \<Rightarrow> nat \<Rightarrow> nat \<Rightarrow> nat" where
  "matched a b alo ahi blo bhi =
     (case find_longest_match a b alo ahi blo bhi of
        (i, j, k) \<Rightarrow>
          if k \<noteq> 0 then
            k + (if alo < i \<and> blo < j then matched a b alo i blo j else 0)
              + (if i + k < ahi \<and> j + k < bhi then matched a b (i + k) ahi (j + k) bhi else 0)
          else 0)"
  by pat_completeness auto
termination
proof (relation "measure (\<lambda>(a, b, alo, ahi, blo, bhi). ahi - alo)")
  show "wf (measure (\<lambda>(a, b, alo, ahi, blo, bhi). ahi - alo))" by simp
next
  fix a b :: ustring and alo ahi blo bhi i j k :: nat and y
  assume "(i, y) = find_longest_match a b alo ahi blo bhi" "(j, k) = y" "k \<noteq> 0"
    "alo < i \<and> blo < j"
  then have "find_longest_match a b alo ahi blo bhi = (i, j, k)" by simp
  from find_longest_match_window [OF this \<open>k \<noteq> 0\<close>] \<open>k \<noteq> 0\<close>
  show "((a, b, alo, i, blo, j), a, b, alo, ahi, blo, bhi)
          \<in> measure (\<lambda>(a, b, alo, ahi, blo, bhi). ahi - alo)"
    by simp arith
next
  fix a b :: ustring and alo ahi blo bhi i j k :: nat and y
  assume "(i, y) = find_longest_match a b alo ahi blo bhi" "(j, k) = y" "k \<noteq> 0"
    "i + k < ahi \<and> j + k < bhi"
  then have "find_longest_match a b alo ahi blo bhi = (i, j, k)" by simp
  from find_longest_match_window [OF this \<open>k \<noteq> 0\<close>] \<open>k \<noteq> 0\<close>
  show "((a, b, i + k, ahi, j + k, bhi), a, b, alo, ahi, blo, bhi)
          \<in> measure (\<lambda>(a, b, alo, ahi, blo, bhi). ahi - alo)"
    by simp arith
qed

declare matched.simps [simp del]

text \<open>The test \<open>ratio() >= 0.80\<close>, where \<open>ratio()\<close> is
  \<open>2.0 * matches / (len(a) + len(b))\<close> and 1.0 for two empty strings. The quotient is
  compared exactly; the floating-point test agrees with it for strings of fewer than
  \<open>10\<^sup>1\<^sup>5\<close> characters.\<close>

definition ratio_ge_threshold :: "ustring \<Rightarrow> ustring \<Rightarrow> bool" where
  "ratio_ge_threshold a b =
     (if length a + length b = 0 then True
      else 10 * matched a b 0 (length a) 0 (length b) \<ge> 4 * (length a + length b))"

section \<open>Deduplicator\<close>

text \<open>\<open>remove_duplicates(text)\<close>. The sentence ends are the positions of the four
  terminators; a sentence runs from after the previous end to its own end, and what follows
  the last end is the remainder. Every piece is stripped and dropped when empty.\<close>

definition is_terminator :: "uchar \<Rightarrow> bool" where
  "is_terminator c \<longleftrightarrow> c = IDEO_STOP \<or> c = FW_EXCL \<or> c = FW_QUEST \<or> c = FW_SEMI"

fun raw_sentences :: "ustring \<Rightarrow> ustring \<Rightarrow> ustring list" where
  "raw_sentences [] cur = (if cur \<noteq> [] then [cur] else [])"
| "raw_sentences (c # cs) cur =
     (if is_terminator c then (cur @ [c]) # raw_sentences cs []
      else raw_sentences cs (cur @ [c]))"

definition sentence_list :: "ustring \<Rightarrow> ustring list" where
  "sentence_list text = filter (\<lambda>s. s \<noteq> []) (map strip (raw_sentences text []))"

text \<open>\<open>re.sub(r'[...\s]', '', s)\<close>: the string without terminators, commas and
  whitespace.\<close>

definition clean :: "ustring \<Rightarrow> ustring" where
  "clean s =
     filter (\<lambda>c. \<not> (is_terminator c \<or> c = FW_COMMA \<or> c = IDEO_COMMA \<or> isspace c)) s"

text \<open>The inner loop over the kept sentences stops at the first one that the new sentence
  duplicates; a pair with an empty cleaned form is skipped.\<close>

fun find_duplicate :: "ustring \<Rightarrow> ustring list \<Rightarrow> ustring option" where
  "find_duplicate sentence [] = None"
| "find_duplicate sentence (kept_sentence # ks) =
     (let s1_clean = clean sentence; s2_clean = clean kept_sentence
      in if s1_clean = [] \<or> s2_clean = [] then find_duplicate sentence ks
         else if ratio_ge_threshold s1_clean s2_clean then Some kept_sentence
         else find_duplicate sentence ks)"

text \<open>A duplicate replaces the kept unit when it is strictly longer
  (\<open>remove\<close> then \<open>append\<close>) and is dropped otherwise; a unit that duplicates
  nothing is appended.\<close>

definition keep_longer :: "ustring \<Rightarrow> ustring option \<Rightarrow> ustring list \<Rightarrow> ustring list" where
  "keep_longer unit dup kept =
     (case dup of
        None \<Rightarrow> kept @ [unit]
      | Some k \<Rightarrow> if length unit > length k then remove1 k kept @ [unit] else kept)"

definition dedup_sentence :: "ustring list \<Rightarrow> ustring \<Rightarrow> ustring list" where
  "dedup_sentence unique_sentences sentence =
     keep_longer sentence (find_duplicate sentence unique_sentences) unique_sentences"

definition dedup_sentences :: "ustring list \<Rightarrow> ustring list" where
  "dedup_sentences ss = foldl dedup_sentence [] ss"

text \<open>\<open>dedup_text.split('\n\n')\<close>.\<close>

fun split_nlnl :: "ustring \<Rightarrow> ustring list" where
  "split_nlnl (a # b # cs) =
     (if a = NL \<and> b = NL then [] # split_nlnl cs
      else (let r = split_nlnl (b # cs) in (a # hd r) # tl r))"
| "split_nlnl [a] = [[a]]"
| "split_nlnl [] = [[]]"

text \<open>Group 0 of \<open>re.match(r'\[[^\]]+\]\<colon>', para)\<close>: the tag itself.\<close>

definition speaker_tag :: "ustring \<Rightarrow> ustring option" where
  "speaker_tag para =
     (case speaker_match para of
        None \<Rightarrow> None
      | Some (lbl, rest) \<Rightarrow> Some ([LBRACK] @ lbl @ [RBRACK, FWCOLON]))"

fun find_duplicate_para :: "ustring \<Rightarrow> ustring list \<Rightarrow> ustring option" where
  "find_duplicate_para para [] = None"
| "find_duplicate_para para (kept_para # ks) =
     (case (speaker_tag para, speaker_tag kept_para) of
        (Some tag, Some kept_tag) \<Rightarrow>
          if tag = kept_tag then
            (let content1 = strip (drop (length tag) para);
                 content2 = strip (drop (length kept_tag) kept_para)
             in if content1 \<noteq> [] \<and> content2 \<noteq> [] \<and>
                   ratio_ge_threshold (clean content1) (clean content2)
                then Some kept_para
                else find_duplicate_para para ks)
          else find_duplicate_para para ks
      | _ \<Rightarrow> find_duplicate_para para ks)"

definition dedup_paragraph :: "ustring list \<Rightarrow> ustring \<Rightarrow> ustring list" where
  "dedup_paragraph unique_paragraphs para0 =
     (let para = strip para0
      in if para = [] then unique_paragraphs
         else keep_longer para (find_duplicate_para para unique_paragraphs) unique_paragraphs)"

text \<open>\<open>'\n\n'.join(...)\<close>.\<close>

fun join_nlnl :: "ustring list \<Rightarrow> ustring" where
  "join_nlnl [] = []"
| "join_nlnl [p] = p"
| "join_nlnl (p # q # ps) = p @ [NL, NL] @ join_nlnl (q # ps)"

definition remove_duplicates :: "ustring \<Rightarrow> ustring" where
  "remove_duplicates text =
     (let dedup_text = concat (dedup_sentences (sentence_list text))
      in if LBRACK \<in> set dedup_text \<and> str_in [RBRACK, FWCOLON] dedup_text
         then join_nlnl (foldl dedup_paragraph [] (split_nlnl dedup_text))
         else dedup_text)"

section \<open>Output formatting\<close>

text \<open>\<open>format_speaker_paragraphs\<close>: \<open>re.sub\<close> puts a newline before every tag
  in lenticular brackets that does not start the text; leading newlines are then removed.\<close>

definition LQUOTE :: uchar where "LQUOTE = 12304"
definition RQUOTE :: uchar where "RQUOTE = 12305"

function format_scan :: "bool \<Rightarrow> ustring \<Rightarrow> ustring" where
  "format_scan at_start [] = []"
| "format_scan at_start (c # cs) =
     (if c = LQUOTE then
        (let lbl = takeWhile (\<lambda>x. x \<noteq> RQUOTE) cs;
             rest = dropWhile (\<lambda>x. x \<noteq> RQUOTE) cs
         in if lbl \<noteq> [] \<and> rest \<noteq> []
            then (if at_start then [] else [NL]) @ [LQUOTE] @ lbl @ [RQUOTE] @ format_scan False (tl rest)
            else c # format_scan False cs)
      else c # format_scan False cs)"
  by pat_completeness auto
termination
proof (relation "measure (\<lambda>(s, t). length t)")
  show "wf (measure (\<lambda>(s, t). length t))" by simp
next
  fix at_start :: bool and c :: uchar and cs lbl rest :: ustring
  assume "rest = dropWhile (\<lambda>x. x \<noteq> RQUOTE) cs"
  then have "length (tl rest) \<le> length cs"
    using length_dropWhile_le [of "\<lambda>x. x \<noteq> RQUOTE" cs] by simp
  then show "((False, tl rest), at_start, c # cs) \<in> measure (\<lambda>(s, t). length t)" by simp
qed auto

definition format_speaker_paragraphs :: "ustring \<Rightarrow> ustring" where
  "format_speaker_paragraphs text = dropWhile (\<lambda>c. c = NL) (format_scan True text)"

section \<open>Streaming call supervisor\<close>

text \<open>
  The exceptions the client distinguishes: \<open>requests.exceptions.Timeout\<close>, any other
  \<open>RequestException\<close>, \<open>ZeroDivisionError\<close>, and any other exception.

  A streamed reply is the sequence of lines of \<open>response.iter_lines()\<close>. A line is
  empty, or not JSON (\<open>json.loads\<close> raises \<open>JSONDecodeError\<close>), or makes the
  iterator or the handling raise another exception, or is an object with an optional
  \<open>response\<close> text and a \<open>done\<close> flag; with the object come the two readings of
  \<open>time.time()\<close> taken while it is handled (after the text is appended, and at the idle
  check).
\<close>

datatype exn = Timeout | RequestError | ZeroDivisionError | OtherError

datatype frame =
    Blank
  | Malformed
  | Raises exn
  | Data "ustring option" bool rat rat

record stream_state =
  response_text :: ustring
  last_output_time :: rat
  no_output_count :: nat
  last_check_length :: nat

definition check_interval :: rat where "check_interval = 30"
definition max_no_output_intervals :: nat where "max_no_output_intervals = 3"
definition repetition_check_interval :: nat where "repetition_check_interval = 500"

definition receive :: "ustring option \<Rightarrow> rat \<Rightarrow> stream_state \<Rightarrow> stream_state" where
  "receive delta now st =
     (case delta of
        None \<Rightarrow> st
      | Some d \<Rightarrow> st\<lparr>response_text := response_text st @ d, last_output_time := now,
                       no_output_count := 0\<rparr>)"

datatype 'a step = Break 'a | Continue 'a

definition idle_check :: "rat \<Rightarrow> stream_state \<Rightarrow> stream_state step" where
  "idle_check current_time st =
     (if current_time - last_output_time st > check_interval then
        (let st' = st\<lparr>no_output_count := no_output_count st + 1\<rparr>
         in if no_output_count st' \<ge> max_no_output_intervals then Break st'
            else Continue (st'\<lparr>last_output_time := current_time\<rparr>))
      else Continue st)"

definition repetition_check :: "stream_state \<Rightarrow> stream_state step" where
  "repetition_check st =
     (if length (response_text st) - last_check_length st \<ge> repetition_check_interval then
        (if detect_repetition (response_text st) default_window_size then Break st
         else Continue (st\<lparr>last_check_length := length (response_text st)\<rparr>))
      else Continue st)"

fun stream_loop :: "frame list \<Rightarrow> stream_state \<Rightarrow> (exn + ustring) \<times> frame list" where
  "stream_loop [] st = (Inr (response_text st), [])"
| "stream_loop (Blank # fs) st = stream_loop fs st"
| "stream_loop (Malformed # fs) st = stream_loop fs st"
| "stream_loop (Raises e # fs) st = (Inl e, fs)"
| "stream_loop (Data delta done t_recv t_check # fs) st =
     (let st1 = receive delta t_recv st
      in if done then (Inr (response_text st1), fs)
         else
           (case idle_check t_check st1 of
              Break st2 \<Rightarrow> (Inr (response_text st2), fs)
            | Continue st2 \<Rightarrow>
                (case repetition_check st2 of
                   Break st3 \<Rightarrow> (Inr (response_text st3), fs)
                 | Continue st3 \<Rightarrow> stream_loop fs st3)))"

text \<open>\<open>_stream_response(payload, attempt)\<close>: the request fails, or a stream opens at
  the clock reading \<open>t0\<close>. The result of \<open>stream_loop\<close> is what ends the loop and
  the lines never read.\<close>

datatype stream_outcome = ConnectFails exn | Stream rat "frame list"

definition initial_state :: "rat \<Rightarrow> stream_state" where
  "initial_state t0 =
     \<lparr>response_text = [], last_output_time = t0, no_output_count = 0, last_check_length = 0\<rparr>"

definition stream_response :: "stream_outcome \<Rightarrow> int \<Rightarrow> ustring" where
  "stream_response outcome attempt =
     (case outcome of
        ConnectFails e \<Rightarrow> []
      | Stream t0 frames \<Rightarrow>
          (case fst (stream_loop frames (initial_state t0)) of
             Inl e \<Rightarrow> []
           | Inr txt \<Rightarrow>
               (let response_text = strip txt
                in if response_text = [] \<and> attempt < 2 then []
                   else if response_text = [] then []
                   else response_text)))"

section \<open>Retry orchestrator\<close>

text \<open>
  \<open>call_ollama(prompt, max_retries, use_stream)\<close>. The endpoint answers the
  \<open>n\<close>-th request for a prompt with a streamed reply or, without streaming, with an
  exception or the \<open>response\<close> field of the body. The prompts sent so far are the state:
  every request appends its prompt.
\<close>

datatype plain_outcome = PlainFails exn | PlainResponse ustring

type_synonym prompt = ustring

record endpoint =
  stream_reply :: "nat \<Rightarrow> prompt \<Rightarrow> stream_outcome"
  plain_reply :: "nat \<Rightarrow> prompt \<Rightarrow> plain_outcome"

fun attempts ::
  "endpoint \<Rightarrow> prompt \<Rightarrow> int \<Rightarrow> bool \<Rightarrow> nat list \<Rightarrow> prompt list \<Rightarrow> (exn + ustring) \<times> prompt list" where
  "attempts ep prompt max_retries use_stream [] sent = (Inr [], sent)"
| "attempts ep prompt max_retries use_stream (attempt # rest) sent =
     (if use_stream then
        (Inr (stream_response (stream_reply ep (length sent) prompt) (int attempt)), sent @ [prompt])
      else
        (case plain_reply ep (length sent) prompt of
           PlainResponse body \<Rightarrow>
             (let response_text = strip body
              in if response_text \<noteq> [] then (Inr response_text, sent @ [prompt])
                 else if int attempt < max_retries
                 then attempts ep prompt max_retries use_stream rest (sent @ [prompt])
                 else (Inr [], sent @ [prompt]))
         | PlainFails e \<Rightarrow>
             (if e = Timeout \<or> e = RequestError then
                (if int attempt < max_retries
                 then attempts ep prompt max_retries use_stream rest (sent @ [prompt])
                 else (Inr [], sent @ [prompt]))
              else (Inl e, sent @ [prompt]))))"

definition call_ollama ::
  "endpoint \<Rightarrow> prompt \<Rightarrow> int \<Rightarrow> bool \<Rightarrow> prompt list \<Rightarrow> (exn + ustring) \<times> prompt list" where
  "call_ollama ep prompt max_retries use_stream sent =
     attempts ep prompt max_retries use_stream [0..<nat (max_retries + 1)] sent"


section \<open>Processing a transcript\<close>

text \<open>
  \<open>process_transcript\<close>. The prompt is the template filled with the chunk, its length
  and a target length: a function of the chunk, which stands for it here. The test
  \<open>len(result) / chunk_length * 100 < 60\<close> is taken exactly; the division raises
  \<open>ZeroDivisionError\<close> for a chunk of length 0, and so does the final
  \<open>total_output_length / len(transcript)\<close> for an empty transcript.
\<close>

definition make_prompt :: "ustring \<Rightarrow> prompt" where
  "make_prompt chunk = chunk"

definition default_max_retries :: int where
  "default_max_retries = 2"

definition too_short :: "ustring \<Rightarrow> nat \<Rightarrow> bool" where
  "too_short result chunk_length \<longleftrightarrow> 100 * length result < 60 * chunk_length"

definition finish_chunk :: "ustring \<Rightarrow> ustring \<Rightarrow> ustring" where
  "finish_chunk chunk result =
     (let formatted = format_speaker_paragraphs result
      in if formatted \<noteq> [] then formatted else chunk)"

definition process_chunk :: "endpoint \<Rightarrow> ustring \<Rightarrow> prompt list \<Rightarrow> (exn + ustring) \<times> prompt list" where
  "process_chunk ep chunk sent =
     (let chunk_length = length chunk; prompt = make_prompt chunk
      in case call_ollama ep prompt default_max_retries True sent of
           (Inl e, sent1) \<Rightarrow> (Inl e, sent1)
         | (Inr result, sent1) \<Rightarrow>
             if result \<noteq> [] then
               (let result1 = remove_duplicates result
                in if chunk_length = 0 then (Inl ZeroDivisionError, sent1)
                   else if too_short result1 chunk_length then
                     (case call_ollama ep prompt default_max_retries True sent1 of
                        (Inl e, sent2) \<Rightarrow> (Inl e, sent2)
                      | (Inr result2, sent2) \<Rightarrow>
                          (Inr (finish_chunk chunk
                                  (if result2 \<noteq> [] then remove_duplicates result2 else result2)),
                           sent2))
                   else (Inr (finish_chunk chunk result1), sent1))
             else (Inr chunk, sent1))"

fun process_chunks ::
  "endpoint \<Rightarrow> ustring list \<Rightarrow> ustring list \<Rightarrow> prompt list \<Rightarrow> (exn + ustring list) \<times> prompt list" where
  "process_chunks ep [] processed_chunks sent = (Inr processed_chunks, sent)"
| "process_chunks ep (chunk # cs) processed_chunks sent =
     (case process_chunk ep chunk sent of
        (Inl e, sent') \<Rightarrow> (Inl e, sent')
      | (Inr r, sent') \<Rightarrow> process_chunks ep cs (processed_chunks @ [r]) sent')"

definition process_transcript :: "endpoint \<Rightarrow> ustring \<Rightarrow> exn + ustring" where
  "process_transcript ep transcript =
     (case process_chunks ep (split_text transcript 1000) [] [] of
        (Inl e, sent) \<Rightarrow> Inl e
      | (Inr processed_chunks, sent) \<Rightarrow>
          if length transcript = 0 then Inl ZeroDivisionError
          else Inr (join_nlnl processed_chunks))"

section \<open>Notions used in the statements\<close>

text \<open>Whitespace normalisation for comparing a text with its segments: the text with every
  whitespace character removed.\<close>

definition normalize_ws :: "ustring \<Rightarrow> ustring" where
  "normalize_ws s = filter (\<lambda>c. \<not> isspace c) s"

text \<open>The shape of a detected speaker block: a tag followed by non-empty content that
  carries no whitespace at either end.\<close>

definition is_block :: "ustring \<Rightarrow> bool" where
  "is_block b \<longleftrightarrow> (\<exists>sp c. b = fmt_block sp c \<and> c \<noteq> [] \<and> strip c = c)"

section \<open>Concrete inputs\<close>

text \<open>The last \<open>n\<close> elements, and all but the last \<open>n\<close>.\<close>

definition lastn :: "nat \<Rightarrow> 'a list \<Rightarrow> 'a list" where
  "lastn n xs = drop (length xs - n) xs"

definition butlastn :: "nat \<Rightarrow> 'a list \<Rightarrow> 'a list" where
  "butlastn n xs = take (length xs - n) xs"

text \<open>A stream with a repetition that the watchdog never sees.\<close>

definition missed_stream :: "frame list" where
  "missed_stream =
     [Data (Some (replicate 200 97)) False 0 0,
      Data (Some (replicate 299 98 @ [99])) False 0 0,
      Data (Some (replicate 499 100 @ [101])) False 0 0,
      Data (Some [102]) True 0 0]"

text \<open>An endpoint whose first two streams carry no text and whose third carries "ok".\<close>

definition empty_twice :: endpoint where
  "empty_twice =
     \<lparr>stream_reply = (\<lambda>n p. if n < 2 then Stream 0 [Data None True 0 0]
                              else Stream 0 [Data (Some [111, 107]) True 0 0]),
      plain_reply = (\<lambda>n p. if n < 2 then PlainResponse [32] else PlainResponse [111, 107])\<rparr>"

text \<open>An endpoint whose first stream carries "a" and whose later streams carry
  nothing, and one whose later streams carry "c".\<close>

definition short_then_empty :: endpoint where
  "short_then_empty =
     \<lparr>stream_reply = (\<lambda>n p. if n = 0 then Stream 0 [Data (Some [97]) True 0 0]
                              else Stream 0 [Data None True 0 0]),
      plain_reply = (\<lambda>n p. PlainResponse [])\<rparr>"

definition short_then_short :: endpoint where
  "short_then_short =
     \<lparr>stream_reply = (\<lambda>n p. if n = 0 then Stream 0 [Data (Some [97]) True 0 0]
                              else Stream 0 [Data (Some [99]) True 0 0]),
      plain_reply = (\<lambda>n p. PlainResponse [])\<rparr>"

section \<open>Properties of the repetition check\<close>

text \<open>
  Claim C10. A text shorter than twice the window size is never reported as repeating,
  whatever it contains; with the default window of 100 characters this covers every text
  of fewer than 200 characters.
\<close>

theorem detect_repetition_short:
  "(int (length text) < 2 * window_size \<longrightarrow> \<not> detect_repetition text window_size) \<and>
   (length text < 200 \<longrightarrow> \<not> detect_repetition text default_window_size)"
  by (simp add: detect_repetition_def default_window_size_def)

theorem detect_repetition_short_witness:
  "int (length (replicate 199 (97::nat))) < 2 * 100 \<and>
   length (replicate 199 (97::nat)) < 200 \<and>
   \<not> detect_repetition (replicate 199 97) 100 \<and>
   \<not> detect_repetition (replicate 199 97) default_window_size"
  using detect_repetition_short [of "replicate 199 97" 100]
  by (simp add: default_window_size_def)

section \<open>Properties of the chunker\<close>

subsection \<open>Stripping and whitespace\<close>

lemma normalize_ws_append [simp]: "normalize_ws (a @ b) = normalize_ws a @ normalize_ws b"
  by (simp add: normalize_ws_def)

lemma normalize_ws_Nil [simp]: "normalize_ws [] = []"
  by (simp add: normalize_ws_def)

lemma normalize_ws_lstrip: "normalize_ws (lstrip s) = normalize_ws s"
  unfolding normalize_ws_def lstrip_def by (induction s) auto

lemma normalize_ws_rstrip: "normalize_ws (rstrip s) = normalize_ws s"
proof -
  have "filter (\<lambda>c. \<not> isspace c) (dropWhile isspace xs) = filter (\<lambda>c. \<not> isspace c) xs" for xs
    by (induction xs) auto
  then have "filter (\<lambda>c. \<not> isspace c) (rev (dropWhile isspace (rev s))) = filter (\<lambda>c. \<not> isspace c) s"
    by (metis rev_filter rev_rev_ident)
  then show ?thesis by (simp add: normalize_ws_def rstrip_def)
qed

lemma normalize_ws_strip [simp]: "normalize_ws (strip s) = normalize_ws s"
  by (simp add: strip_def normalize_ws_rstrip normalize_ws_lstrip)

lemma normalize_ws_concat: "normalize_ws (concat xs) = concat (map normalize_ws xs)"
  by (induction xs) auto



lemma normalize_ws_close_chunk:
  "normalize_ws (concat (close_chunk cur chunks)) = normalize_ws (concat chunks) @ normalize_ws cur"
proof (cases "strip cur = []")
  case True
  then have "normalize_ws (strip cur) = []" by simp
  then have "normalize_ws cur = []" by simp
  with True show ?thesis by (simp add: close_chunk_def)
next
  case False
  then show ?thesis by (simp add: close_chunk_def)
qed


lemma NL_space [simp]: "isspace NL"
  by (simp add: isspace_def NL_def)

lemma normalize_ws_Cons [simp]:
  "normalize_ws (c # s) = (if isspace c then normalize_ws s else c # normalize_ws s)"
  by (simp add: normalize_ws_def)

lemma pack_blocks_content:
  "pack_blocks m bs cur chunks = (cur', chunks') \<Longrightarrow>
   normalize_ws (concat chunks') @ normalize_ws cur'
     = normalize_ws (concat chunks) @ normalize_ws cur @ normalize_ws (concat bs)"
  by (induction m bs cur chunks rule: pack_blocks.induct)
     (auto simp: normalize_ws_close_chunk split: if_splits)



lemma fmt_block_hd: "fmt_block sp c = LBRACK # (sp @ [RBRACK, FWCOLON] @ c)"
  by (simp add: fmt_block_def)

lemma LBRACK_nonspace [simp]: "\<not> isspace LBRACK"
  by (simp add: isspace_def LBRACK_def)

lemma lstrip_hd: "lstrip s \<noteq> [] \<Longrightarrow> \<not> isspace (hd (lstrip s))"
  unfolding lstrip_def using hd_dropWhile [of isspace s] by simp

lemma rstrip_last: "rstrip s \<noteq> [] \<Longrightarrow> \<not> isspace (last (rstrip s))"
proof -
  assume a: "rstrip s \<noteq> []"
  then have "dropWhile isspace (rev s) \<noteq> []" by (simp add: rstrip_def)
  then have "\<not> isspace (hd (dropWhile isspace (rev s)))" using hd_dropWhile by blast
  then show ?thesis using a by (simp add: rstrip_def last_rev)
qed

lemma lstrip_id: "s \<noteq> [] \<Longrightarrow> \<not> isspace (hd s) \<Longrightarrow> lstrip s = s"
  by (cases s) (simp_all add: lstrip_def)

lemma rstrip_id: "s \<noteq> [] \<Longrightarrow> \<not> isspace (last s) \<Longrightarrow> rstrip s = s"
proof -
  assume a: "s \<noteq> []" "\<not> isspace (last s)"
  then have "dropWhile isspace (rev s) = rev s"
    by (cases "rev s") (simp_all add: last_rev [symmetric] hd_rev)
  then show ?thesis by (simp add: rstrip_def)
qed

lemma strip_id: "s \<noteq> [] \<Longrightarrow> \<not> isspace (hd s) \<Longrightarrow> \<not> isspace (last s) \<Longrightarrow> strip s = s"
  by (simp add: strip_def lstrip_id rstrip_id)

lemma rstrip_hd: "rstrip s \<noteq> [] \<Longrightarrow> hd (rstrip s) = hd s"
proof -
  assume a: "rstrip s \<noteq> []"
  have "\<exists>ws. s = rstrip s @ ws"
    unfolding rstrip_def
    by (metis rev_append rev_rev_ident takeWhile_dropWhile_id)
  then obtain ws where "s = rstrip s @ ws" ..
  then show ?thesis using a by (metis hd_append2)
qed

lemma strip_stripped: "strip s \<noteq> [] \<Longrightarrow> \<not> isspace (hd (strip s)) \<and> \<not> isspace (last (strip s))"
proof -
  assume a: "strip s \<noteq> []"
  then have l: "lstrip s \<noteq> []" by (auto simp: strip_def rstrip_def)
  have "hd (strip s) = hd (lstrip s)" using a rstrip_hd by (simp add: strip_def)
  then show ?thesis using a l lstrip_hd rstrip_last by (simp add: strip_def)
qed

lemma strip_idem: "strip (strip s) = strip s"
proof (cases "strip s = []")
  case True
  have "strip [] = []" by (simp add: strip_def lstrip_def rstrip_def)
  with True show ?thesis by simp
next
  case False
  then show ?thesis using strip_stripped strip_id by blast
qed

lemma strip_block: "is_block b \<Longrightarrow> strip b = b \<and> b \<noteq> []"
proof -
  assume "is_block b"
  then obtain sp c where b: "b = fmt_block sp c" and c: "c \<noteq> []" "strip c = c"
    by (auto simp: is_block_def)
  have "\<not> isspace (last c)" using strip_stripped [of c] c by simp
  then have "\<not> isspace (last b)" using b c by (simp add: fmt_block_def)
  moreover have "\<not> isspace (hd b)" using b by (simp add: fmt_block_def)
  moreover have "b \<noteq> []" using b by (simp add: fmt_block_def)
  ultimately show ?thesis using strip_id by blast
qed

lemma is_block_fmt: "c \<noteq> [] \<Longrightarrow> strip c = c \<Longrightarrow> is_block (fmt_block sp c)"
  by (auto simp: is_block_def)

lemma flush_block_blocks:
  "\<forall>b\<in>set blocks. is_block b \<Longrightarrow> \<forall>b\<in>set (flush_block sp content blocks). is_block b"
  by (auto simp: flush_block_def Let_def is_block_fmt strip_idem split: option.splits)

lemma scan_lines_blocks:
  "scan_lines ls sp content blocks = (sp', content', blocks') \<Longrightarrow>
   \<forall>b\<in>set blocks. is_block b \<Longrightarrow> \<forall>b\<in>set blocks'. is_block b"
  by (induction ls sp content blocks rule: scan_lines.induct)
     (auto simp: flush_block_blocks split: option.splits if_splits)

lemma speaker_blocks_of_blocks: "b \<in> set (speaker_blocks_of t) \<Longrightarrow> is_block b"
proof -
  assume a: "b \<in> set (speaker_blocks_of t)"
  obtain sp content blocks where s: "scan_lines (split_nl t) None [] [] = (sp, content, blocks)"
    by (cases "scan_lines (split_nl t) None [] []")
  have "\<forall>b\<in>set blocks. is_block b" using scan_lines_blocks [OF s] by simp
  then have "\<forall>b\<in>set (flush_block sp content blocks). is_block b" by (rule flush_block_blocks)
  then show ?thesis using a s by (simp add: speaker_blocks_of_def)
qed


lemma blocks_content_nonblank:
  assumes "bs \<noteq> []" "\<forall>b\<in>set bs. is_block b"
  shows "normalize_ws (concat bs) \<noteq> []"
proof -
  obtain b bs' where bs: "bs = b # bs'" using assms(1) by (cases bs) auto
  then have "is_block b" using assms(2) by simp
  then obtain sp c where "b = fmt_block sp c" by (auto simp: is_block_def)
  then show ?thesis using bs by (simp add: fmt_block_def)
qed


lemmas char_defs = NL_def LBRACK_def RBRACK_def FWCOLON_def IDEO_STOP_def FW_EXCL_def
  FW_QUEST_def FW_SEMI_def ELLIPSIS_def FW_COMMA_def IDEO_COMMA_def

lemmas chunker_defs = split_text_def speaker_blocks_of_def speaker_match_def truthy_speaker_def
  flush_block_def fmt_block_def strip_def lstrip_def rstrip_def isspace_def split_blocks_def
  split_sentences_def close_chunk_def is_ending_def Let_def

subsection \<open>Content of the segments\<close>




subsection \<open>Length of the segments\<close>

lemma length_strip_le: "length (strip s) \<le> length s"
proof -
  have "length (rstrip x) \<le> length x" for x
    using length_dropWhile_le [of isspace "rev x"] by (simp add: rstrip_def)
  moreover have "length (lstrip s) \<le> length s"
    by (simp add: lstrip_def length_dropWhile_le)
  ultimately show ?thesis unfolding strip_def by (meson order_trans)
qed

lemma close_chunk_set:
  "set (close_chunk cur chunks) = set chunks \<union> (if strip cur = [] then {} else {strip cur})"
  by (simp add: close_chunk_def)

lemma pack_blocks_budget:
  "pack_blocks m bs cur chunks = (cur', chunks') \<Longrightarrow>
   cur = [] \<or> int (length cur) \<le> m + 2 \<or> cur \<in> B \<Longrightarrow>
   \<forall>c\<in>set chunks. int (length c) \<le> m + 2 \<or> c \<in> B \<Longrightarrow>
   set bs \<subseteq> B \<Longrightarrow> \<forall>b\<in>B. strip b = b \<Longrightarrow>
   (cur' = [] \<or> int (length cur') \<le> m + 2 \<or> cur' \<in> B) \<and>
   (\<forall>c\<in>set chunks'. int (length c) \<le> m + 2 \<or> c \<in> B)"
proof (induction m bs cur chunks rule: pack_blocks.induct)
  case (1 m cur chunks)
  then show ?case by simp
next
  case (2 m block bs cur chunks)
  show ?case
  proof (cases "int (length cur) + int (length block) \<le> m")
    case True
    let ?n = "cur @ (if cur \<noteq> [] then [NL, NL] else []) @ block"
    have p: "pack_blocks m bs ?n chunks = (cur', chunks')" using 2(3) True by simp
    have "int (length ?n) \<le> m + 2" using True by simp
    then show ?thesis using 2(1) [OF True p] 2(5) 2(6) 2(7) by simp
  next
    case False
    have p: "pack_blocks m bs block (close_chunk cur chunks) = (cur', chunks')"
      using 2(3) False by simp
    have "\<forall>c\<in>set (close_chunk cur chunks). int (length c) \<le> m + 2 \<or> c \<in> B"
    proof
      fix c assume "c \<in> set (close_chunk cur chunks)"
      then consider "c \<in> set chunks" | "c = strip cur" "strip cur \<noteq> []"
        by (auto simp: close_chunk_set split: if_splits)
      then show "int (length c) \<le> m + 2 \<or> c \<in> B"
      proof cases
        case 1
        then show ?thesis using 2(5) by simp
      next
        case 2
        have "cur \<noteq> []" using 2(2) by (auto simp: strip_def lstrip_def rstrip_def)
        then consider "int (length cur) \<le> m + 2" | "cur \<in> B" using "2.prems"(2) by auto
        then show ?thesis
        proof cases
          case 1
          then show ?thesis using length_strip_le [of cur] 2(1) by simp
        next
          case 2
          then show ?thesis using "2.prems"(5) \<open>c = strip cur\<close> by simp
        qed
      qed
    qed
    moreover have "block \<in> B" using 2(6) by simp
    ultimately show ?thesis using 2(2) [OF False p] 2(6) 2(7) by simp
  qed
qed

lemma pack_sentences_budget:
  "pack_sentences m ss cur chunks = (cur', chunks') \<Longrightarrow>
   cur = [] \<or> int (length cur) \<le> m \<or> cur \<in> U \<Longrightarrow>
   \<forall>c\<in>set chunks. int (length c) \<le> m \<or> c \<in> strip ` U \<Longrightarrow>
   set ss \<subseteq> U \<Longrightarrow>
   (cur' = [] \<or> int (length cur') \<le> m \<or> cur' \<in> U) \<and>
   (\<forall>c\<in>set chunks'. int (length c) \<le> m \<or> c \<in> strip ` U)"
proof (induction m ss cur chunks rule: pack_sentences.induct)
  case (1 m cur chunks)
  then show ?case by simp
next
  case (2 m sentence ss cur chunks)
  show ?case
  proof (cases "int (length cur) + int (length sentence) \<le> m")
    case True
    have p: "pack_sentences m ss (cur @ sentence) chunks = (cur', chunks')"
      using "2.prems"(1) True by simp
    have "int (length (cur @ sentence)) \<le> m" using True by simp
    then show ?thesis using "2.IH"(1) [OF True p] "2.prems" by simp
  next
    case False
    have p: "pack_sentences m ss sentence (close_chunk cur chunks) = (cur', chunks')"
      using "2.prems"(1) False by simp
    have "\<forall>c\<in>set (close_chunk cur chunks). int (length c) \<le> m \<or> c \<in> strip ` U"
    proof
      fix c assume "c \<in> set (close_chunk cur chunks)"
      then consider "c \<in> set chunks" | "c = strip cur" "strip cur \<noteq> []"
        by (auto simp: close_chunk_set split: if_splits)
      then show "int (length c) \<le> m \<or> c \<in> strip ` U"
      proof cases
        case 1
        then show ?thesis using "2.prems"(3) by simp
      next
        case 2
        have "cur \<noteq> []" using 2(2) by (auto simp: strip_def lstrip_def rstrip_def)
        then consider "int (length cur) \<le> m" | "cur \<in> U" using "2.prems"(2) by auto
        then show ?thesis
        proof cases
          case 1
          then show ?thesis using length_strip_le [of cur] 2(1) by simp
        next
          case 2
          then show ?thesis using \<open>c = strip cur\<close> by simp
        qed
      qed
    qed
    moreover have "sentence \<in> U" using "2.prems"(4) by simp
    ultimately show ?thesis using "2.IH"(2) [OF False p] "2.prems" by simp
  qed
qed

lemma split_sentences_budget:
  assumes "c \<in> set (split_sentences t m)"
  shows "int (length c) \<le> m \<or> c = t \<or> c \<in> strip ` set (sentence_units (re_split t))"
proof -
  let ?U = "set (sentence_units (re_split t))"
  obtain cur chunks where p: "pack_sentences m (sentence_units (re_split t)) [] [] = (cur, chunks)"
    by (cases "pack_sentences m (sentence_units (re_split t)) [] []")
  have inv: "(cur = [] \<or> int (length cur) \<le> m \<or> cur \<in> ?U) \<and>
             (\<forall>c\<in>set chunks. int (length c) \<le> m \<or> c \<in> strip ` ?U)"
    using pack_sentences_budget [OF p, of ?U] by simp
  have "c = t \<or> c \<in> set (close_chunk cur chunks)"
    using assms p by (auto simp: split_sentences_def Let_def split: if_splits)
  then consider "c = t" | "c \<in> set chunks" | "c = strip cur" "strip cur \<noteq> []"
    by (auto simp: close_chunk_set split: if_splits)
  then show ?thesis
  proof cases
    case 1 then show ?thesis by simp
  next
    case 2 then show ?thesis using inv by blast
  next
    case 3
    have "cur \<noteq> []" using 3(2) by (auto simp: strip_def lstrip_def rstrip_def)
    then consider "int (length cur) \<le> m" | "cur \<in> ?U" using inv by auto
    then show ?thesis
    proof cases
      case 1 then show ?thesis using length_strip_le [of cur] 3(1) by simp
    next
      case 2 then show ?thesis using 3(1) by simp
    qed
  qed
qed

lemma split_blocks_budget:
  assumes "c \<in> set (split_blocks bs t m)" "bs \<noteq> []" "\<forall>b\<in>set bs. is_block b"
  shows "int (length c) \<le> m + 2 \<or> c \<in> set bs"
proof -
  obtain cur chunks where p: "pack_blocks m bs [] [] = (cur, chunks)"
    by (cases "pack_blocks m bs [] []")
  have sb: "\<forall>b\<in>set bs. strip b = b" using assms(3) strip_block by blast
  have inv: "(cur = [] \<or> int (length cur) \<le> m + 2 \<or> cur \<in> set bs) \<and>
             (\<forall>c\<in>set chunks. int (length c) \<le> m + 2 \<or> c \<in> set bs)"
    using pack_blocks_budget [OF p, of "set bs"] sb by simp
  have e: "normalize_ws (concat (close_chunk cur chunks)) = normalize_ws (concat bs)"
    using pack_blocks_content [OF p] by (simp add: normalize_ws_close_chunk)
  then have "close_chunk cur chunks \<noteq> []"
    using blocks_content_nonblank [OF assms(2,3)] by auto
  then have "c \<in> set (close_chunk cur chunks)"
    using assms(1) p by (simp add: split_blocks_def Let_def)
  then consider "c \<in> set chunks" | "c = strip cur" "strip cur \<noteq> []"
    by (auto simp: close_chunk_set split: if_splits)
  then show ?thesis
  proof cases
    case 1 then show ?thesis using inv by simp
  next
    case 2
    have "cur \<noteq> []" using 2(2) by (auto simp: strip_def lstrip_def rstrip_def)
    then consider "int (length cur) \<le> m + 2" | "cur \<in> set bs" using inv by auto
    then show ?thesis
    proof cases
      case 1 then show ?thesis using length_strip_le [of cur] 2(1) by simp
    next
      case 2 then show ?thesis using sb \<open>c = strip cur\<close> by simp
    qed
  qed
qed

text \<open>
  Claim C2, as stated, fails: with the budget 10 the two blocks \<open>[A]\<colon>x\<close> and
  \<open>[B]\<colon>y\<close>, of 5 characters each, are packed into one segment of 12 characters,
  the separator between them not being counted.
\<close>

theorem split_text_over_budget:
  "split_text [91, 65, 93, 65306, 120, 10, 91, 66, 93, 65306, 121] 10
     = [[91, 65, 93, 65306, 120, 10, 10, 91, 66, 93, 65306, 121]] \<and>
   speaker_blocks_of [91, 65, 93, 65306, 120, 10, 91, 66, 93, 65306, 121]
     = [[91, 65, 93, 65306, 120], [91, 66, 93, 65306, 121]]"
  by (simp add: chunker_defs char_defs)

text \<open>
  Claim C2, amended. With speaker blocks, every segment has at most \<open>N + 2\<close> characters
  (the budget test leaves out the two-character separator put before the block it admits)
  or is one speaker block, whole. Without speaker blocks, every segment has at most \<open>N\<close>
  characters or is one sentence with its delimiters, stripped, or the whole text. A block
  is admitted when the current length plus its length equals \<open>N\<close>.
\<close>

theorem split_text_budget:
  "(c \<in> set (split_text t m) \<longrightarrow>
      (if speaker_blocks_of t = []
       then int (length c) \<le> m \<or> c = t \<or> c \<in> strip ` set (sentence_units (re_split t))
       else int (length c) \<le> m + 2 \<or> c \<in> set (speaker_blocks_of t))) \<and>
   (int (length cur) + int (length b) = m \<longrightarrow>
      pack_blocks m (b # bs) cur chunks =
      pack_blocks m bs (cur @ (if cur \<noteq> [] then [NL, NL] else []) @ b) chunks)"
proof -
  have bl: "\<forall>b\<in>set (speaker_blocks_of t). is_block b"
    using speaker_blocks_of_blocks by blast
  have 1: "c \<in> set (split_text t m) \<Longrightarrow> speaker_blocks_of t = [] \<Longrightarrow>
      int (length c) \<le> m \<or> c = t \<or> c \<in> strip ` set (sentence_units (re_split t))"
    using split_sentences_budget [of c t m] by (simp add: split_text_def)
  have 2: "c \<in> set (split_text t m) \<Longrightarrow> speaker_blocks_of t \<noteq> [] \<Longrightarrow>
      int (length c) \<le> m + 2 \<or> c \<in> set (speaker_blocks_of t)"
    using split_blocks_budget [of c "speaker_blocks_of t" t m] bl by (simp add: split_text_def)
  have 3: "int (length cur) + int (length b) = m \<Longrightarrow>
      pack_blocks m (b # bs) cur chunks =
      pack_blocks m bs (cur @ (if cur \<noteq> [] then [NL, NL] else []) @ b) chunks"
    by simp
  show ?thesis using 1 2 3 by (cases "speaker_blocks_of t = []") simp_all
qed

theorem split_text_budget_witness:
  "[91, 65, 93, 65306, 120, 10, 10, 91, 66, 93, 65306, 121] \<in> set (split_text [91, 65, 93, 65306, 120, 10, 91, 66, 93, 65306, 121] 10) \<and>
   speaker_blocks_of [91, 65, 93, 65306, 120, 10, 91, 66, 93, 65306, 121] \<noteq> [] \<and>
   int (length [91, 65, 93, 65306, 120, 10, 10, 91, 66, 93, 65306, (121::nat)]) \<le> 10 + 2 \<and>
   int (length [91, 65, 93, 65306, (120::nat)]) + int (length [91, 66, 93, 65306, (121::nat)]) = 10 \<and>
   pack_blocks 10 [[91, 66, 93, 65306, 121]] [91, 65, 93, 65306, 120] [] =
     ([91, 65, 93, 65306, 120, 10, 10, 91, 66, 93, 65306, 121], [])"
proof -
  have a: "[91, 65, 93, 65306, 120, 10, 10, 91, 66, 93, 65306, 121] \<in> set (split_text [91, 65, 93, 65306, 120, 10, 91, 66, 93, 65306, 121] 10)"
    by (simp add: chunker_defs char_defs)
  have b: "speaker_blocks_of [91, 65, 93, 65306, 120, 10, 91, 66, 93, 65306, 121] \<noteq> []"
    by (simp add: chunker_defs char_defs)
  show ?thesis
    using a b
      split_text_budget [of "[91, 65, 93, 65306, 120, 10, 10, 91, 66, 93, 65306, 121]" "[91, 65, 93, 65306, 120, 10, 91, 66, 93, 65306, 121]" 10
        "[91, 65, 93, 65306, 120]" "[91, 66, 93, 65306, 121]" "[]" "[]"]
    by (simp add: NL_def)
qed

subsection \<open>The empty segment\<close>

lemma pack_sentences_nonempty:
  "pack_sentences m ss cur chunks = (cur', chunks') \<Longrightarrow> [] \<notin> set chunks \<Longrightarrow> [] \<notin> set chunks'"
  by (induction m ss cur chunks rule: pack_sentences.induct)
     (auto simp: close_chunk_set split: if_splits)

lemma pack_blocks_nonempty:
  "pack_blocks m bs cur chunks = (cur', chunks') \<Longrightarrow> [] \<notin> set chunks \<Longrightarrow> [] \<notin> set chunks'"
  by (induction m bs cur chunks rule: pack_blocks.induct)
     (auto simp: close_chunk_set split: if_splits)

lemma strip_Nil [simp]: "strip [] = []"
  by (simp add: strip_def lstrip_def rstrip_def)

lemma speaker_blocks_of_Nil: "speaker_blocks_of [] = []"
  by (simp add: speaker_blocks_of_def speaker_match_def truthy_speaker_def flush_block_def)

lemma re_split_Nil: "re_split [] = [[]]"
  by (subst re_split.simps) simp

lemma split_text_Nil: "split_text [] m = [[]]"
  by (simp add: split_text_def speaker_blocks_of_Nil split_sentences_def re_split_Nil
      close_chunk_def Let_def)

lemma split_text_segments_nonempty:
  assumes "t \<noteq> []"
  shows "[] \<notin> set (split_text t m)"
proof -
  have "t = []" if a: "[] \<in> set (split_text t m)"
  proof (cases "speaker_blocks_of t = []")
    case True
    obtain cur chunks where p: "pack_sentences m (sentence_units (re_split t)) [] [] = (cur, chunks)"
      by (cases "pack_sentences m (sentence_units (re_split t)) [] []")
    have "[] \<notin> set (close_chunk cur chunks)"
      using pack_sentences_nonempty [OF p] by (simp add: close_chunk_set)
    then show ?thesis using a True p
      by (auto simp: split_text_def split_sentences_def Let_def split: if_splits)
  next
    case False
    obtain cur chunks where p: "pack_blocks m (speaker_blocks_of t) [] [] = (cur, chunks)"
      by (cases "pack_blocks m (speaker_blocks_of t) [] []")
    have "[] \<notin> set (close_chunk cur chunks)"
      using pack_blocks_nonempty [OF p] by (simp add: close_chunk_set)
    then show ?thesis using a False p
      by (auto simp: split_text_def split_blocks_def Let_def split: if_splits)
  qed
  then show ?thesis using assms by blast
qed

text \<open>
  Claim C9, as stated, fails: the split of the empty text is not the empty list.
\<close>

theorem split_text_empty_not_Nil: "split_text [] 1000 \<noteq> []"
  by (simp add: split_text_Nil)

text \<open>
  Claim C9, amended. The split of the empty text is the one-element list holding the empty
  string (the fallback \<open>[text]\<close> of an empty chunk list), and the empty text is the only
  input for which an empty segment is returned.
\<close>

theorem split_text_empty_segment:
  "split_text [] m = [[]] \<and> ([] \<in> set (split_text t m) \<longleftrightarrow> t = [])"
  using split_text_Nil [of m] split_text_segments_nonempty [of t m] by auto

theorem split_text_empty_segment_witness:
  "split_text [] 1000 = [[]] \<and> [] \<in> set (split_text [] 1000) \<and>
   [] \<notin> set (split_text [97] 1000)"
  using split_text_empty_segment [of 1000 "[]"] split_text_empty_segment [of 1000 "[97]"]
  by simp

section \<open>Properties of the streaming client\<close>

lemma starts_with_append: "starts_with xs (xs @ ys)"
  by (induction xs) auto

lemma str_in_append: "str_in xs (ps @ xs @ ys)"
proof (induction ps)
  case Nil
  show ?case by (cases "xs @ ys") (use starts_with_append [of xs ys] in auto)
next
  case (Cons p ps)
  then show ?case by simp
qed

lemma starts_with_set: "starts_with xs ys \<Longrightarrow> set xs \<subseteq> set ys"
  by (induction xs ys rule: starts_with.induct) auto


lemma starts_with_iff: "starts_with xs ys \<longleftrightarrow> (\<exists>zs. ys = xs @ zs)"
  by (induction xs ys rule: starts_with.induct) auto

lemma str_in_iff: "str_in xs ys \<longleftrightarrow> (\<exists>ps zs. ys = ps @ xs @ zs)"
proof (induction xs ys rule: str_in.induct)
  case (1 xs)
  then show ?case by auto
next
  case (2 xs y ys)
  show ?case
  proof
    assume "str_in xs (y # ys)"
    then consider "starts_with xs (y # ys)" | "str_in xs ys" by auto
    then show "\<exists>ps zs. y # ys = ps @ xs @ zs"
    proof cases
      case 1
      then obtain zs where "y # ys = xs @ zs" by (auto simp: starts_with_iff)
      then have "y # ys = [] @ xs @ zs" by simp
      then show ?thesis by blast
    next
      case 2
      then obtain ps zs where "ys = ps @ xs @ zs" using "2.IH" by auto
      then have "y # ys = (y # ps) @ xs @ zs" by simp
      then show ?thesis by blast
    qed
  next
    assume "\<exists>ps zs. y # ys = ps @ xs @ zs"
    then obtain ps zs where e: "y # ys = ps @ xs @ zs" by auto
    show "str_in xs (y # ys)"
    proof (cases ps)
      case Nil
      then have "starts_with xs (y # ys)" using e by (auto simp: starts_with_iff)
      then show ?thesis by simp
    next
      case (Cons p ps')
      then have "ys = ps' @ xs @ zs" using e by simp
      then have "str_in xs ys" using "2.IH" by auto
      then show ?thesis by simp
    qed
  qed
qed

lemma str_in_set: "str_in xs ys \<Longrightarrow> set xs \<subseteq> set ys"
  by (auto simp: str_in_iff)

lemma detect_repetition_default:
  assumes "200 \<le> length t"
  shows "detect_repetition t default_window_size
           = str_in (lastn 100 t) (butlastn 100 (lastn 500 t))"
proof (cases "length t > 500")
  case True
  then show ?thesis using assms
    by (simp add: detect_repetition_def default_window_size_def pyslice_def slice_index_def
        lastn_def butlastn_def Let_def nat_diff_distrib' drop_take)
next
  case False
  then show ?thesis using assms
    by (simp add: detect_repetition_def default_window_size_def pyslice_def slice_index_def
        lastn_def butlastn_def Let_def nat_diff_distrib')
qed

lemma str_in_length: "str_in xs ys \<Longrightarrow> length xs \<le> length ys"
  by (auto simp: str_in_iff)

lemma repetition_check_fires:
  assumes "length (response_text st) - last_check_length st \<ge> repetition_check_interval"
      and "detect_repetition (response_text st) default_window_size"
  shows "repetition_check st = Break st"
  using assms by (simp add: repetition_check_def)

text \<open>
  Claim C5, amended. A text whose last 100 characters occur, as one run, in the part of its
  last 500 characters that precedes them is reported by the repetition check. When the
  supervisor runs the check on such an accumulated text (on a well-formed line that is not
  the final one and does not end the stream as stalled, once the output has grown by at
  least 500 characters since the last check) the stream stops at that line: the result is
  the accumulated text, and the lines after it are never read.
\<close>

theorem repetition_watchdog:
  assumes "100 \<le> length t"
      and "str_in (lastn 100 t) (butlastn 100 (lastn 500 t))"
      and "idle_check t_check (receive delta t_recv st) = Continue st2"
      and "response_text st2 = t"
      and "length t - last_check_length st2 \<ge> repetition_check_interval"
  shows "detect_repetition t default_window_size \<and>
         stream_loop (Data delta False t_recv t_check # fs) st = (Inr t, fs)"
proof -
  have "length (lastn 100 t) \<le> length (butlastn 100 (lastn 500 t))"
    using assms(2) by (rule str_in_length)
  then have "200 \<le> length t" using assms(1) by (simp add: lastn_def butlastn_def)
  then have d: "detect_repetition t default_window_size"
    using assms(2) by (simp add: detect_repetition_default)
  then have "repetition_check st2 = Break st2"
    using assms(4,5) by (simp add: repetition_check_fires)
  then show ?thesis using d assms(3,4) by simp
qed

lemma lastn_replicate: "lastn n (replicate m x) = replicate (min n m) x"
  by (simp add: lastn_def min_def)

lemma butlastn_replicate: "butlastn n (replicate m x) = replicate (m - n) x"
  by (simp add: butlastn_def)

lemma str_in_replicate: "n \<le> m \<Longrightarrow> str_in (replicate n x) (replicate m x)"
proof -
  assume "n \<le> m"
  then have "replicate m x = [] @ replicate n x @ replicate (m - n) x"
    by (simp add: replicate_add [symmetric])
  then show ?thesis using str_in_append [of "replicate n x" "[]" "replicate (m - n) x"] by simp
qed

theorem repetition_watchdog_witness:
  "100 \<le> length (replicate 500 (97::nat)) \<and>
   str_in (lastn 100 (replicate 500 (97::nat))) (butlastn 100 (lastn 500 (replicate 500 97))) \<and>
   detect_repetition (replicate 500 97) default_window_size \<and>
   stream_loop [Data (Some (replicate 500 97)) False 0 0, Blank] (initial_state 0)
     = (Inr (replicate 500 97), [Blank])"
proof -
  let ?t = "replicate 500 (97::nat)"
  let ?st2 = "\<lparr>response_text = ?t, last_output_time = 0, no_output_count = 0,
               last_check_length = 0\<rparr>"
  have a: "100 \<le> length ?t" by simp
  have b: "str_in (lastn 100 ?t) (butlastn 100 (lastn 500 ?t))"
    by (simp add: lastn_replicate butlastn_replicate str_in_replicate)
  have c: "idle_check 0 (receive (Some ?t) 0 (initial_state 0)) = Continue ?st2"
    by (simp add: idle_check_def receive_def initial_state_def check_interval_def)
  have d: "response_text ?st2 = ?t" by simp
  have e: "length ?t - last_check_length ?st2 \<ge> repetition_check_interval"
    by (simp add: repetition_check_interval_def)
  show ?thesis
    using a b repetition_watchdog [OF a b c d e, of "[Blank]"] by simp
qed

lemma not_str_in: "x \<in> set xs \<Longrightarrow> x \<notin> set ys \<Longrightarrow> \<not> str_in xs ys"
  using str_in_set by blast

lemma missed_check_1:
  "\<not> detect_repetition (replicate 200 97 @ replicate 299 98 @ [99]) default_window_size"
proof -
  let ?t = "replicate 200 (97::nat) @ replicate 299 98 @ [99]"
  have "\<not> str_in (lastn 100 ?t) (butlastn 100 (lastn 500 ?t))"
    by (rule not_str_in [of 99]) (simp_all add: lastn_def butlastn_def)
  then show ?thesis by (simp add: detect_repetition_default)
qed

lemma missed_check_2:
  "\<not> detect_repetition (replicate 200 97 @ replicate 299 98 @ [99] @ replicate 499 100 @ [101])
       default_window_size"
proof -
  let ?t = "replicate 200 (97::nat) @ replicate 299 98 @ [99] @ replicate 499 100 @ [101]"
  have "\<not> str_in (lastn 100 ?t) (butlastn 100 (lastn 500 ?t))"
    by (rule not_str_in [of 101]) (simp_all add: lastn_def butlastn_def)
  then show ?thesis by (simp add: detect_repetition_default)
qed

text \<open>
  Claim C5, as stated, fails: the check runs only when the output has grown by 500
  characters since the last check. After the first line below the accumulated text is 200
  times the same character, which the repetition check reports; no check runs at that
  length, the checks at 500 and 1000 characters see other tails, and the stream is read to
  its end, 801 characters later.
\<close>

theorem repetition_missed_between_checks:
  "detect_repetition (replicate 200 97) default_window_size \<and>
   stream_loop missed_stream (initial_state 0) =
     (Inr (replicate 200 97 @ replicate 299 98 @ [99] @ replicate 499 100 @ [101] @ [102]), [])"
proof -
  have a: "detect_repetition (replicate 200 97) default_window_size"
    by (simp add: detect_repetition_default lastn_replicate butlastn_replicate str_in_replicate)
  have b: "stream_loop missed_stream (initial_state 0) =
     (Inr (replicate 200 97 @ replicate 299 98 @ [99] @ replicate 499 100 @ [101] @ [102]), [])"
    using missed_check_1 missed_check_2
    by (simp add: missed_stream_def initial_state_def receive_def idle_check_def
        repetition_check_def check_interval_def repetition_check_interval_def)
  show ?thesis using a b by simp
qed

lemmas strip_defs = strip_def lstrip_def rstrip_def isspace_def

lemma call_ollama_stream:
  "0 \<le> max_retries \<Longrightarrow>
   call_ollama ep prompt max_retries True sent =
     (Inr (stream_response (stream_reply ep (length sent) prompt) 0), sent @ [prompt])"
proof -
  assume "0 \<le> max_retries"
  then have "[0..<nat (max_retries + 1)] = 0 # [1..<nat (max_retries + 1)]"
    by (simp add: upt_conv_Cons)
  then show ?thesis by (simp add: call_ollama_def)
qed

text \<open>
  Claim C6 on the code: with streaming (the default) and \<open>max_retries = 2\<close>, against an
  endpoint whose first two replies are empty and whose third is "ok", \<open>call_ollama\<close>
  returns the empty string after one request, although the third reply would be "ok".
  Without streaming the same call sends three requests and returns "ok".
\<close>

theorem call_ollama_stream_gives_up:
  "call_ollama empty_twice [112] 2 True [] = (Inr [], [[112]]) \<and>
   stream_response (stream_reply empty_twice 2 [112]) 2 = [111, 107] \<and>
   call_ollama empty_twice [112] 2 False [] = (Inr [111, 107], [[112], [112], [112]])"
proof -
  have u: "[0..<nat (2 + 1)] = [0, 1, 2]" by (simp add: upt_conv_Cons)
  have a: "call_ollama empty_twice [112] 2 True [] = (Inr [], [[112]])"
    by (simp add: call_ollama_stream empty_twice_def stream_response_def initial_state_def
        receive_def strip_defs)
  have b: "stream_response (stream_reply empty_twice 2 [112]) 2 = [111, 107]"
    by (simp add: empty_twice_def stream_response_def initial_state_def receive_def strip_defs)
  have c: "call_ollama empty_twice [112] 2 False [] = (Inr [111, 107], [[112], [112], [112]])"
    unfolding call_ollama_def u by (simp add: empty_twice_def strip_defs)
  show ?thesis using a b c by simp
qed

lemma attempts_no_transport_error:
  "fst (attempts ep prompt max_retries use_stream as sent) \<noteq> Inl Timeout \<and>
   fst (attempts ep prompt max_retries use_stream as sent) \<noteq> Inl RequestError"
  by (induction ep prompt max_retries use_stream as sent rule: attempts.induct)
     (auto simp: Let_def split: plain_outcome.splits)

lemma call_ollama_no_transport_error:
  "fst (call_ollama ep prompt max_retries use_stream sent) \<noteq> Inl Timeout \<and>
   fst (call_ollama ep prompt max_retries use_stream sent) \<noteq> Inl RequestError"
  by (simp add: call_ollama_def attempts_no_transport_error)

lemma call_ollama_default:
  "call_ollama ep prompt default_max_retries True sent =
     (Inr (stream_response (stream_reply ep (length sent) prompt) 0), sent @ [prompt])"
  by (simp add: call_ollama_stream default_max_retries_def)

lemma process_chunk_fallback_first:
  "stream_response (stream_reply ep (length sent) (make_prompt chunk)) 0 = [] \<Longrightarrow>
   process_chunk ep chunk sent = (Inr chunk, sent @ [make_prompt chunk])"
  by (simp add: process_chunk_def call_ollama_default Let_def)

lemma process_chunk_total:
  "chunk \<noteq> [] \<Longrightarrow> \<exists>r sent'. process_chunk ep chunk sent = (Inr r, sent')"
  by (simp add: process_chunk_def call_ollama_default Let_def)

lemma process_chunks_total:
  "[] \<notin> set chunks \<Longrightarrow>
   \<exists>rs sent'. process_chunks ep chunks processed sent = (Inr rs, sent') \<and>
     length rs = length processed + length chunks"
proof (induction chunks arbitrary: processed sent)
  case Nil
  then show ?case by simp
next
  case (Cons c cs)
  then obtain r sent' where p: "process_chunk ep c sent = (Inr r, sent')"
    using process_chunk_total [of c ep sent] by auto
  show ?case using Cons.IH [of "processed @ [r]" sent'] Cons.prems p by auto
qed

lemma process_transcript_total:
  assumes "transcript \<noteq> []"
  shows "\<exists>doc. process_transcript ep transcript = Inr doc"
proof -
  have "[] \<notin> set (split_text transcript 1000)"
    using split_text_segments_nonempty [of transcript 1000] assms by simp
  then obtain rs sent' where "process_chunks ep (split_text transcript 1000) [] [] = (Inr rs, sent')"
    using process_chunks_total by blast
  then show ?thesis using assms by (simp add: process_transcript_def)
qed

text \<open>
  Claim C7 on the code: for the empty transcript, whatever the endpoint answers,
  \<open>process_transcript\<close> raises \<open>ZeroDivisionError\<close> and returns no document.
\<close>

theorem process_transcript_empty_raises:
  "process_transcript ep [] = Inl ZeroDivisionError"
proof -
  have s: "split_text [] 1000 = [[]]" by (simp add: split_text_Nil)
  obtain r sent' where c: "call_ollama ep (make_prompt []) default_max_retries True [] = (Inr r, sent')"
    by (simp add: call_ollama_default)
  show ?thesis
  proof (cases "r = []")
    case True
    then show ?thesis using c s by (simp add: process_transcript_def process_chunk_def Let_def)
  next
    case False
    then show ?thesis using c s by (simp add: process_transcript_def process_chunk_def Let_def)
  qed
qed

lemmas dedup_defs = remove_duplicates_def sentence_list_def dedup_sentences_def
  dedup_sentence_def keep_longer_def clean_def is_terminator_def

lemmas format_defs = finish_chunk_def format_speaker_paragraphs_def LQUOTE_def RQUOTE_def

text \<open>
  Claim C8, amended. When the first call for a chunk returns a non-empty output whose
  deduplicated length is below 60% of the chunk's length, \<open>process_chunk\<close> sends exactly
  one more request, with the same prompt and as attempt 0 of a new call. Whatever the
  length of the second output, no further request follows: a non-empty second output is
  kept, deduplicated and formatted, and an empty one is replaced by the chunk's source text.
\<close>

theorem regeneration_once:
  assumes "stream_response (stream_reply ep (length sent) (make_prompt chunk)) 0 = r1"
      and "r1 \<noteq> []"
      and "too_short (remove_duplicates r1) (length chunk)"
      and "stream_response (stream_reply ep (Suc (length sent)) (make_prompt chunk)) 0 = r2"
  shows "process_chunk ep chunk sent =
           (Inr (if r2 \<noteq> [] \<and> format_speaker_paragraphs (remove_duplicates r2) \<noteq> []
                 then format_speaker_paragraphs (remove_duplicates r2) else chunk),
            sent @ [make_prompt chunk, make_prompt chunk])"
proof -
  have n: "length chunk \<noteq> 0" using assms(3) by (auto simp: too_short_def)
  have f: "format_speaker_paragraphs [] = []"
    by (simp add: format_speaker_paragraphs_def)
  show ?thesis
    using assms n f
    by (simp add: process_chunk_def call_ollama_default Let_def finish_chunk_def)
qed

lemma rd_a: "remove_duplicates [97] = [97]"
  by (simp add: dedup_defs strip_defs char_defs)

lemma rd_c: "remove_duplicates [99] = [99]"
  by (simp add: dedup_defs strip_defs char_defs)

theorem regeneration_once_witness:
  "stream_response (stream_reply short_then_short (length []) (make_prompt [98, 98])) 0 = [97] \<and>
   [97] \<noteq> ([] :: ustring) \<and>
   too_short (remove_duplicates [97]) (length [98, 98 :: nat]) \<and>
   stream_response (stream_reply short_then_short (Suc (length [])) (make_prompt [98, 98])) 0 = [99] \<and>
   process_chunk short_then_short [98, 98] [] = (Inr [99], [[98, 98], [98, 98]])"
proof -
  have a: "stream_response (stream_reply short_then_short (length []) (make_prompt [98, 98])) 0 = [97]"
    by (simp add: short_then_short_def stream_response_def initial_state_def receive_def strip_defs)
  have b: "[97] \<noteq> ([] :: ustring)" by simp
  have c: "too_short (remove_duplicates [97]) (length [98, 98 :: nat])"
    by (simp add: rd_a too_short_def)
  have d: "stream_response (stream_reply short_then_short (Suc (length [])) (make_prompt [98, 98])) 0 = [99]"
    by (simp add: short_then_short_def stream_response_def initial_state_def receive_def strip_defs)
  have e: "format_speaker_paragraphs (remove_duplicates [99]) = [99]"
    by (simp add: rd_c format_defs NL_def)
  show ?thesis
    using a b c d regeneration_once [OF a b c d] e by (simp add: make_prompt_def)
qed

text \<open>
  Claim C8, as stated, fails: when the regeneration returns nothing, what is kept for the
  chunk is its source text, not the output of the regeneration.
\<close>

theorem regeneration_empty_falls_back:
  "stream_response (stream_reply short_then_empty 0 [98, 98]) 0 = [97] \<and>
   stream_response (stream_reply short_then_empty 1 [98, 98]) 0 = [] \<and>
   process_chunk short_then_empty [98, 98] [] = (Inr [98, 98], [[98, 98], [98, 98]])"
proof -
  have a: "stream_response (stream_reply short_then_empty 0 [98, 98]) 0 = [97]"
    by (simp add: short_then_empty_def stream_response_def initial_state_def receive_def strip_defs)
  have b: "stream_response (stream_reply short_then_empty 1 [98, 98]) 0 = []"
    by (simp add: short_then_empty_def stream_response_def initial_state_def receive_def strip_defs)
  have c: "process_chunk short_then_empty [98, 98] [] = (Inr [98, 98], [[98, 98], [98, 98]])"
    using a b
    by (simp add: process_chunk_def call_ollama_default Let_def make_prompt_def rd_a
        too_short_def finish_chunk_def format_speaker_paragraphs_def)
  show ?thesis using a b c by simp
qed

end
